theory Spec2Isabelle
  imports Main
begin

section \<open>The tasks queue of \<^verbatim>\<open>src/lib/classes/tasks/TasksQueue.js\<close>\<close>

text \<open>
  The class \<^verbatim>\<open>TasksQueue\<close> keeps a list of pending tasks, one wake-up timer and
  writes the ids of the tasks it ran to the database. The embedding passes the state
  of the object explicitly. What the class calls but does not define is part of the
  state or a parameter: the timeouts of the platform are a list of the pending ones, the
  three lifecycle hooks of a task are a parameter saying which one raises, the calls of
  \<^verbatim>\<open>TaskModel.update\<close> are logged and a parameter says which of them are rejected,
  the records of \<^verbatim>\<open>TaskModel.findAll\<close> and
  \<^verbatim>\<open>TaskLoader.resolveTask\<close> are parameters, and the clock is an argument wherever
  the source reads it.

  The methods are asynchronous. An enqueue and the callback of a timeout are each taken
  as one step, run to its end before the next one starts, which is the serialisation
  that section 5 of the specification asks for. \<^verbatim>\<open>TaskModel.findAll\<close> and the
  hook \<^verbatim>\<open>task.initialize()\<close> are taken to return.
\<close>

subsection \<open>Values and tasks\<close>

text \<open>
  The \<^verbatim>\<open>id\<close> of a task is tested for truthiness (\<^verbatim>\<open>if (task.id)\<close>), so it is
  a JavaScript value: absent, null, a number or a string. Times are timestamps in
  milliseconds, whole numbers far below \<open>2^53\<close>, where the arithmetic of the source is
  exact; they are integers here.
\<close>

datatype jsval = Undefined | Null | Num int | Str string

fun truthy :: "jsval \<Rightarrow> bool" where
  "truthy Undefined = False"
| "truthy Null = False"
| "truthy (Num n) = (n \<noteq> 0)"
| "truthy (Str s) = (s \<noteq> [])"

record task =
  task_id :: jsval
  time :: int

datatype phase = BeforeRun | Run | AfterRun

text \<open>
  The source has no \<^verbatim>\<open>try\<close>: whatever a callee raises leaves the calling method.
  The callees that can raise are a lifecycle hook of a task, the loader and the write
  to the database.
\<close>

datatype error = TaskLifecycleError phase task | UnknownVariantError | StorePersistenceError

text \<open>
  The hooks \<^verbatim>\<open>beforeRun\<close>, \<^verbatim>\<open>run\<close> and \<^verbatim>\<open>afterRun\<close> belong to the task
  classes. A behaviour says, for a task, which hook raises, if any.
\<close>

type_synonym behaviour = "task \<Rightarrow> phase option"

text \<open>
  \<^verbatim>\<open>TaskModel.update\<close> is awaited at line 112 and can be rejected. A store says, for
  the list of ids passed, whether the write resolves.
\<close>

type_synonym store = "jsval list \<Rightarrow> bool"

subsection \<open>The state\<close>

text \<open>
  The first four fields are the private fields of the class; a slot of \<open>tasksList\<close> is
  \<open>None\<close> when it is a hole left by \<^verbatim>\<open>delete\<close>. The number of listeners stands
  for the emitter. The other fields are the environment: the timeouts pending on the
  platform (handle, time of arming, delay), the next fresh handle, the calls of
  \<^verbatim>\<open>TaskModel.update\<close> (each with its list of ids) and the lifecycle hooks called.
\<close>

record queue =
  tasksList :: "task option list"
  currentTimer :: "nat option"
  currentTimerTimestamp :: "int option"
  listeners :: nat
  pending :: "(nat \<times> int \<times> int) list"
  nextHandle :: nat
  updates :: "jsval list list"
  calls :: "(phase \<times> task) list"

definition newQueue :: queue where
  "newQueue = \<lparr> tasksList = [], currentTimer = None, currentTimerTimestamp = None,
     listeners = 0, pending = [], nextHandle = 0, updates = [], calls = [] \<rparr>"

definition MAX_TIMER_TIME :: int where
  "MAX_TIMER_TIME = 864000000"

text \<open>
  The tasks of a list of slots, in order, without the holes; \<^verbatim>\<open>forEach\<close> visits
  these. The working set is the tasks of \<open>tasksList\<close>.
\<close>

definition present :: "task option list \<Rightarrow> task list" where
  "present xs = [t. Some t \<leftarrow> xs]"

definition working :: "queue \<Rightarrow> task list" where
  "working q = present (tasksList q)"

subsection \<open>Timers of the platform\<close>

definition clearTimeout :: "nat option \<Rightarrow> queue \<Rightarrow> queue" where
  "clearTimeout h q = q\<lparr>pending := filter (\<lambda>e. Some (fst e) \<noteq> h) (pending q)\<rparr>"

definition setTimeout :: "int \<Rightarrow> int \<Rightarrow> queue \<Rightarrow> queue" where
  "setTimeout now d q =
     q\<lparr>currentTimer := Some (nextHandle q),
       pending := pending q @ [(nextHandle q, now, d)],
       nextHandle := Suc (nextHandle q)\<rparr>"

subsection \<open>\<^verbatim>\<open>#updateTimer\<close>\<close>

text \<open>One round of the \<^verbatim>\<open>forEach\<close> of lines 63 to 69, on the running candidate.\<close>

definition scanStep :: "task \<Rightarrow> int \<Rightarrow> int" where
  "scanStep t n = (if n < 0 then time t else min n (time t))"

text \<open>
  Lines 61 to 70: the candidate is the time of the forced task, \<open>-1\<close> without one; a
  negative candidate starts the scan, which skips the holes.
\<close>

definition nextTimerTime :: "task option \<Rightarrow> task option list \<Rightarrow> int" where
  "nextTimerTime forced xs =
     (let n = (case forced of None \<Rightarrow> - 1 | Some t \<Rightarrow> time t)
      in if n < 0 then fold scanStep (present xs) n else n)"

text \<open>Lines 73 to 75: the delay for a candidate that is not negative.\<close>

definition timerDelay :: "int \<Rightarrow> int \<Rightarrow> int" where
  "timerDelay now n =
     (let d = max now n - now
      in if d \<ge> MAX_TIMER_TIME then MAX_TIMER_TIME else d)"

definition updateTimer :: "task option \<Rightarrow> int \<Rightarrow> queue \<Rightarrow> queue" where
  "updateTimer forced now q =
     (let q1 = clearTimeout (currentTimer q) q;
          n = nextTimerTime forced (tasksList q1)
      in if n < 0 then q1 else setTimeout now (timerDelay now n) q1)"

subsection \<open>\<^verbatim>\<open>#runTasks\<close>\<close>

text \<open>
  Lines 99 to 101 for one task: the hooks called, and the error when one of them
  raises.
\<close>

definition lifecycle :: "behaviour \<Rightarrow> task \<Rightarrow> error option \<times> (phase \<times> task) list" where
  "lifecycle beh t =
     (case beh t of
        None \<Rightarrow> (None, [(BeforeRun, t), (Run, t), (AfterRun, t)])
      | Some BeforeRun \<Rightarrow> (Some (TaskLifecycleError BeforeRun t), [(BeforeRun, t)])
      | Some Run \<Rightarrow> (Some (TaskLifecycleError Run t), [(BeforeRun, t), (Run, t)])
      | Some AfterRun \<Rightarrow>
          (Some (TaskLifecycleError AfterRun t), [(BeforeRun, t), (Run, t), (AfterRun, t)]))"

text \<open>
  The loop of lines 93 to 107 at index \<open>i\<close>, with the list, \<^verbatim>\<open>completedTasks\<close> and
  the hooks called so far. A raise ends the loop with the list as it is then.
\<close>

function runLoop ::
  "behaviour \<Rightarrow> int \<Rightarrow> nat \<Rightarrow> task option list \<Rightarrow> jsval list \<Rightarrow> (phase \<times> task) list
     \<Rightarrow> error option \<times> task option list \<times> jsval list \<times> (phase \<times> task) list" where
  "runLoop beh now i xs completedTasks tr =
     (if i < length xs then
        (case xs ! i of
           None \<Rightarrow> runLoop beh now (Suc i) xs completedTasks tr
         | Some t \<Rightarrow>
             if time t < now then
               (case lifecycle beh t of
                  (Some e, c) \<Rightarrow> (Some e, xs, completedTasks, tr @ c)
                | (None, c) \<Rightarrow>
                    runLoop beh now (Suc i) (xs[i := None])
                      (if truthy (task_id t) then completedTasks @ [task_id t]
                       else completedTasks)
                      (tr @ c))
             else runLoop beh now (Suc i) xs completedTasks tr)
      else (None, xs, completedTasks, tr))"
  by pat_completeness auto
termination
  by (relation "measure (\<lambda>(beh, now, i, xs, completedTasks, tr). length xs - i)") auto

declare runLoop.simps [simp del]

text \<open>
  The whole method: after the loop the holes are filtered out (line 109) and one
  update is issued when \<^verbatim>\<open>completedTasks\<close> is not empty (lines 111 to 121). The
  update is awaited: when the store rejects it, the error leaves the method, after the
  list has been filtered and the call made.
\<close>

definition runTasks :: "behaviour \<Rightarrow> store \<Rightarrow> int \<Rightarrow> queue \<Rightarrow> error option \<times> queue" where
  "runTasks beh db now q =
     (case runLoop beh now 0 (tasksList q) [] [] of
        (Some e, xs, completedTasks, tr) \<Rightarrow>
          (Some e, q\<lparr>tasksList := xs, calls := calls q @ tr\<rparr>)
      | (None, xs, completedTasks, tr) \<Rightarrow>
          (if completedTasks \<noteq> [] then
             (if db completedTasks then None else Some StorePersistenceError,
              q\<lparr>tasksList := filter (\<lambda>x. x \<noteq> None) xs,
                updates := updates q @ [completedTasks],
                calls := calls q @ tr\<rparr>)
           else
             (None, q\<lparr>tasksList := filter (\<lambda>x. x \<noteq> None) xs, calls := calls q @ tr\<rparr>)))"

text \<open>
  The callback of the timeout (lines 76 to 79): \<open>now\<close> is the clock read by
  \<^verbatim>\<open>#runTasks\<close>, \<open>now'\<close> the clock read by \<^verbatim>\<open>#updateTimer\<close> afterwards.
\<close>

definition timerCallback :: "behaviour \<Rightarrow> store \<Rightarrow> int \<Rightarrow> int \<Rightarrow> queue
    \<Rightarrow> error option \<times> queue" where
  "timerCallback beh db now now' q =
     (case runTasks beh db now q of
        (Some e, q1) \<Rightarrow> (Some e, q1)
      | (None, q1) \<Rightarrow> (None, updateTimer None now' q1))"

text \<open>
  The platform fires the pending timeout with handle \<open>h\<close>: it leaves the pending ones
  and its callback runs. A handle that is not pending fires nothing.
\<close>

definition fire :: "nat \<Rightarrow> behaviour \<Rightarrow> store \<Rightarrow> int \<Rightarrow> int \<Rightarrow> queue
    \<Rightarrow> error option \<times> queue" where
  "fire h beh db now now' q =
     (if h \<in> fst ` set (pending q)
      then timerCallback beh db now now' (q\<lparr>pending := filter (\<lambda>e. fst e \<noteq> h) (pending q)\<rparr>)
      else (None, q))"

subsection \<open>\<^verbatim>\<open>#handleNewTask\<close> and \<^verbatim>\<open>pushTask\<close>\<close>

text \<open>
  Line 50: \<^verbatim>\<open>task.time < ts || !ts\<close>, where \<open>ts\<close> is \<open>currentTimerTimestamp\<close>.
  With \<open>ts\<close> undefined the comparison is false and the negation true; with a number
  the negation is true for zero only. The field is declared at line 14 and no line of
  the class assigns it.
\<close>

definition needsUpdate :: "task \<Rightarrow> int option \<Rightarrow> bool" where
  "needsUpdate t ts = (case ts of None \<Rightarrow> True | Some v \<Rightarrow> time t < v \<or> v = 0)"

definition handleNewTask :: "task \<Rightarrow> int \<Rightarrow> queue \<Rightarrow> queue" where
  "handleNewTask t now q =
     (let q1 = q\<lparr>tasksList := tasksList q @ [Some t]\<rparr>
      in if needsUpdate t (currentTimerTimestamp q1) then updateTimer (Some t) now q1 else q1)"

text \<open>
  The argument of \<^verbatim>\<open>pushTask\<close> is \<open>None\<close> when it is not an instance of
  \<^verbatim>\<open>BaseTask\<close>. The event reaches every listener subscribed.
\<close>

definition pushTask :: "task option \<Rightarrow> int \<Rightarrow> queue \<Rightarrow> queue" where
  "pushTask arg now q =
     (case arg of None \<Rightarrow> q | Some t \<Rightarrow> (handleNewTask t now ^^ listeners q) q)"

subsection \<open>\<^verbatim>\<open>initialize\<close>\<close>

definition subscribeEvents :: "queue \<Rightarrow> queue" where
  "subscribeEvents q = q\<lparr>listeners := Suc (listeners q)\<rparr>"

text \<open>
  Lines 135 to 139, over the records found. \<^verbatim>\<open>TaskLoader.resolveTask\<close> is not part
  of the file: it is the parameter \<open>resolveTask\<close>, which gives a task or raises.
\<close>

fun loadLoop :: "('r \<Rightarrow> error + task) \<Rightarrow> 'r list \<Rightarrow> task option list
    \<Rightarrow> error option \<times> task option list" where
  "loadLoop resolveTask [] xs = (None, xs)"
| "loadLoop resolveTask (r # rs) xs =
     (case resolveTask r of
        Inl e \<Rightarrow> (Some e, xs)
      | Inr t \<Rightarrow> loadLoop resolveTask rs (xs @ [Some t]))"

definition loadTasksFromDatabase :: "('r \<Rightarrow> error + task) \<Rightarrow> 'r list \<Rightarrow> queue
    \<Rightarrow> error option \<times> queue" where
  "loadTasksFromDatabase resolveTask records q =
     (case loadLoop resolveTask records (tasksList q) of
        (r, xs) \<Rightarrow> (r, q\<lparr>tasksList := xs\<rparr>))"

definition initialize :: "('r \<Rightarrow> error + task) \<Rightarrow> 'r list \<Rightarrow> int \<Rightarrow> queue
    \<Rightarrow> error option \<times> queue" where
  "initialize resolveTask records now q =
     (case loadTasksFromDatabase resolveTask records (subscribeEvents q) of
        (Some e, q1) \<Rightarrow> (Some e, q1)
      | (None, q1) \<Rightarrow> (None, updateTimer None now q1))"

subsection \<open>Sequences of operations\<close>

text \<open>
  After \<^verbatim>\<open>initialize\<close> the queue sees calls of \<^verbatim>\<open>pushTask\<close> and timeouts firing,
  one at a time.
\<close>

datatype operation = PushTask "task option" int | Fire nat behaviour store int int

fun step :: "operation \<Rightarrow> queue \<Rightarrow> queue" where
  "step (PushTask arg now) q = pushTask arg now q"
| "step (Fire h beh db now now') q = snd (fire h beh db now now' q)"

definition exec :: "operation list \<Rightarrow> queue \<Rightarrow> queue" where
  "exec ops q = fold step ops q"

definition started :: "('r \<Rightarrow> error + task) \<Rightarrow> 'r list \<Rightarrow> int \<Rightarrow> operation list \<Rightarrow> queue" where
  "started resolveTask records now ops =
     exec ops (snd (initialize resolveTask records now newQueue))"

subsection \<open>Notions for the statements\<close>

text \<open>The three hooks of a task, and the hooks called when phase \<open>p\<close> raises.\<close>

definition hooks :: "task \<Rightarrow> (phase \<times> task) list" where
  "hooks t = [(BeforeRun, t), (Run, t), (AfterRun, t)]"

definition hooksUpTo :: "phase \<Rightarrow> task \<Rightarrow> (phase \<times> task) list" where
  "hooksUpTo p t = (case p of BeforeRun \<Rightarrow> [(BeforeRun, t)]
      | Run \<Rightarrow> [(BeforeRun, t), (Run, t)]
      | AfterRun \<Rightarrow> [(BeforeRun, t), (Run, t), (AfterRun, t)])"

text \<open>
  The ids that a loop going through all the due tasks collects: those of the due tasks
  that pass the test of line 102, in the order of the list.
\<close>

definition runIds :: "int \<Rightarrow> queue \<Rightarrow> jsval list" where
  "runIds now q =
     map task_id (filter (\<lambda>t. truthy (task_id t)) (filter (\<lambda>t. time t < now) (working q)))"

text \<open>What a completed loop leaves in a slot: a hole where the task was due.\<close>

definition clearDue :: "int \<Rightarrow> task option \<Rightarrow> task option" where
  "clearDue now x = (case x of None \<Rightarrow> None | Some t \<Rightarrow> if time t < now then None else Some t)"

text \<open>
  The loop of \<^verbatim>\<open>#runTasks\<close> by recursion on the slots that remain; it is shown
  equal to \<open>runLoop\<close> below, and is the form the proofs use.
\<close>

fun sweep :: "behaviour \<Rightarrow> int \<Rightarrow> task option list
    \<Rightarrow> error option \<times> task option list \<times> jsval list \<times> (phase \<times> task) list" where
  "sweep beh now [] = (None, [], [], [])"
| "sweep beh now (None # xs) =
     (case sweep beh now xs of (r, ys, d, c) \<Rightarrow> (r, None # ys, d, c))"
| "sweep beh now (Some t # xs) =
     (if time t < now then
        (case lifecycle beh t of
           (Some e, c) \<Rightarrow> (Some e, Some t # xs, [], c)
         | (None, c) \<Rightarrow>
             (case sweep beh now xs of
                (r, ys, d, c') \<Rightarrow>
                  (r, None # ys, (if truthy (task_id t) then [task_id t] else []) @ d, c @ c')))
      else (case sweep beh now xs of (r, ys, d, c) \<Rightarrow> (r, Some t # ys, d, c)))"

text \<open>
  What holds of the queue from \<^verbatim>\<open>initialize\<close> on: one listener, a timestamp that
  no method assigns, and at most one pending timeout, the one \<open>currentTimer\<close> names.
\<close>

definition steady :: "queue \<Rightarrow> bool" where
  "steady q \<longleftrightarrow>
     listeners q = 1 \<and> currentTimerTimestamp q = None \<and>
     (pending q = [] \<or> (\<exists>h a d. pending q = [(h, a, d)] \<and> currentTimer q = Some h))"

subsection \<open>Instances for the examples\<close>

text \<open>
  A persisted record, by section 6 of the specification: an identity, a discriminator
  and a due time.
\<close>

record taskRecord =
  rec_id :: int
  rec_type :: string
  rec_time :: int

text \<open>
  Modelled from the spec: \<^verbatim>\<open>TaskLoader.resolveTask\<close> is not in the sources. By
  section 4.2 of the specification it builds the task of a persisted record from the
  discriminator of the record, with its id and due time, and fails when the
  discriminator is not one it knows. The properties below hold for any loader; this one,
  with the single variant \<open>reminder\<close>, is for the examples.
\<close>

definition resolveReminder :: "taskRecord \<Rightarrow> error + task" where
  "resolveReminder r =
     (if rec_type r = ''reminder'' then Inr \<lparr>task_id = Num (rec_id r), time = rec_time r\<rparr>
      else Inl UnknownVariantError)"

text \<open>Two behaviours: no hook raises; the hook \<open>p\<close> of the task \<open>a\<close> raises.\<close>

definition noRaise :: behaviour where
  "noRaise t = None"

definition raisesIn :: "task \<Rightarrow> phase \<Rightarrow> behaviour" where
  "raisesIn a p t = (if t = a then Some p else None)"

text \<open>Two stores: every write resolves; every write is rejected.\<close>

definition resolves :: store where
  "resolves ids = True"

definition rejects :: store where
  "rejects ids = False"

section \<open>Properties\<close>

subsection \<open>The loop of \<^verbatim>\<open>#runTasks\<close>\<close>

lemma runLoop_sweep:
  "i \<le> length xs \<Longrightarrow>
   runLoop beh now i xs done tr =
     (case sweep beh now (drop i xs) of
        (r, ys, d, c) \<Rightarrow> (r, take i xs @ ys, done @ d, tr @ c))"
proof (induction beh now i xs "done" tr rule: runLoop.induct)
  case (1 beh now i xs completedTasks tr)
  show ?case
  proof (cases "i < length xs")
    case False
    with "1.prems" show ?thesis by (subst runLoop.simps) simp
  next
    case True
    then have dr: "drop i xs = xs ! i # drop (Suc i) xs"
      by (simp add: Cons_nth_drop_Suc)
    have tk: "take (Suc i) xs = take i xs @ [xs ! i]"
      using True by (simp add: take_Suc_conv_app_nth)
    show ?thesis
    proof (cases "xs ! i")
      case None
      with True "1.IH"(1) dr tk show ?thesis
        by (simp add: runLoop.simps [of beh now i xs] split: prod.splits)
    next
      case (Some t)
      show ?thesis
      proof (cases "time t < now")
        case False
        with True Some "1.IH"(3) dr tk show ?thesis
          by (simp add: runLoop.simps [of beh now i xs] split: prod.splits)
      next
        case due: True
        obtain r c where lc: "lifecycle beh t = (r, c)" by (cases "lifecycle beh t")
        show ?thesis
        proof (cases r)
          case (Some e)
          have "xs = take i xs @ Some t # drop (Suc i) xs"
            using id_take_nth_drop [OF True] \<open>xs ! i = Some t\<close> by simp
          with Some True \<open>xs ! i = Some t\<close> due lc dr show ?thesis
            by (simp add: runLoop.simps [of beh now i xs])
        next
          case None
          have "runLoop beh now (Suc i) (xs[i := None])
                  (if truthy (task_id t) then completedTasks @ [task_id t] else completedTasks) (tr @ c) =
                (case sweep beh now (drop (Suc i) (xs[i := None])) of
                   (r, ys, d, c') \<Rightarrow> (r, take (Suc i) (xs[i := None]) @ ys,
                      (if truthy (task_id t) then completedTasks @ [task_id t] else completedTasks) @ d,
                      (tr @ c) @ c'))"
            using "1.IH"(2) [OF True \<open>xs ! i = Some t\<close> due lc [symmetric] None] True
            by simp
          moreover have "take (Suc i) (xs[i := None]) = take i xs @ [None]"
            using True by (simp add: take_Suc_conv_app_nth)
          ultimately show ?thesis
            using True \<open>xs ! i = Some t\<close> due lc dr None
            by (simp add: runLoop.simps [of beh now i xs] split: prod.splits)
        qed
      qed
    qed
  qed
qed

lemma present_simps [simp]:
  "present [] = []"
  "present (None # xs) = present xs"
  "present (Some t # xs) = t # present xs"
  "present (xs @ ys) = present xs @ present ys"
  by (simp_all add: present_def)

lemma set_present: "t \<in> set (present xs) \<longleftrightarrow> Some t \<in> set xs"
  by (induction xs) (auto simp: present_def split: option.splits)

lemma present_map_Some [simp]: "present (map Some ts) = ts"
  by (induction ts) simp_all

lemma lifecycle_None: "beh t = None \<Longrightarrow> lifecycle beh t = (None, hooks t)"
  by (simp add: lifecycle_def hooks_def)

lemma lifecycle_Some:
  "beh t = Some p \<Longrightarrow> lifecycle beh t = (Some (TaskLifecycleError p t), hooksUpTo p t)"
  by (cases p) (simp_all add: lifecycle_def hooksUpTo_def)

lemma sweep_ok:
  "\<forall>t. Some t \<in> set xs \<longrightarrow> time t < now \<longrightarrow> beh t = None \<Longrightarrow>
   sweep beh now xs =
     (None, map (clearDue now) xs,
      map task_id (filter (\<lambda>t. truthy (task_id t)) (filter (\<lambda>t. time t < now) (present xs))),
      concat (map hooks (filter (\<lambda>t. time t < now) (present xs))))"
proof (induction xs)
  case Nil
  show ?case by simp
next
  case (Cons x xs)
  then have IH: "sweep beh now xs =
     (None, map (clearDue now) xs,
      map task_id (filter (\<lambda>t. truthy (task_id t)) (filter (\<lambda>t. time t < now) (present xs))),
      concat (map hooks (filter (\<lambda>t. time t < now) (present xs))))"
    by simp
  show ?case
  proof (cases x)
    case None
    with IH show ?thesis by (simp add: clearDue_def)
  next
    case (Some t)
    show ?thesis
    proof (cases "time t < now")
      case True
      with Cons.prems Some have "beh t = None" by simp
      with True Some IH show ?thesis
        by (simp add: clearDue_def lifecycle_None)
    next
      case False
      with Some IH show ?thesis by (simp add: clearDue_def)
    qed
  qed
qed

lemma sweep_raise:
  "\<forall>u. Some u \<in> set pre \<longrightarrow> time u < now \<longrightarrow> beh u = None \<Longrightarrow>
   time t < now \<Longrightarrow> beh t = Some p \<Longrightarrow>
   sweep beh now (pre @ Some t # post) =
     (Some (TaskLifecycleError p t), map (clearDue now) pre @ Some t # post,
      map task_id (filter (\<lambda>t. truthy (task_id t)) (filter (\<lambda>t. time t < now) (present pre))),
      concat (map hooks (filter (\<lambda>t. time t < now) (present pre))) @ hooksUpTo p t)"
proof (induction pre)
  case Nil
  then show ?case by (simp add: lifecycle_Some)
next
  case (Cons x pre)
  then have IH: "sweep beh now (pre @ Some t # post) =
     (Some (TaskLifecycleError p t), map (clearDue now) pre @ Some t # post,
      map task_id (filter (\<lambda>t. truthy (task_id t)) (filter (\<lambda>t. time t < now) (present pre))),
      concat (map hooks (filter (\<lambda>t. time t < now) (present pre))) @ hooksUpTo p t)"
    by simp
  show ?case
  proof (cases x)
    case None
    with IH show ?thesis by (simp add: clearDue_def)
  next
    case (Some u)
    show ?thesis
    proof (cases "time u < now")
      case True
      with Cons.prems Some have "beh u = None" by simp
      with True Some IH show ?thesis
        by (simp add: clearDue_def lifecycle_None)
    next
      case False
      with Some IH show ?thesis by (simp add: clearDue_def)
    qed
  qed
qed

lemma raise_cases:
  "(\<forall>t. Some t \<in> set xs \<longrightarrow> time t < now \<longrightarrow> beh t = None) \<or>
   (\<exists>pre t post p. xs = pre @ Some t # post \<and>
      (\<forall>u. Some u \<in> set pre \<longrightarrow> time u < now \<longrightarrow> beh u = None) \<and>
      time t < now \<and> beh t = Some p)"
proof (induction xs)
  case Nil
  show ?case by simp
next
  case (Cons x xs)
  show ?case
  proof (cases "\<exists>t p. x = Some t \<and> time t < now \<and> beh t = Some p")
    case True
    then obtain t p where "x = Some t" "time t < now" "beh t = Some p" by blast
    then have "x # xs = [] @ Some t # xs \<and>
      (\<forall>u. Some u \<in> set [] \<longrightarrow> time u < now \<longrightarrow> beh u = None) \<and>
      time t < now \<and> beh t = Some p" by simp
    then show ?thesis by blast
  next
    case False
    then have hd: "\<forall>t. x = Some t \<longrightarrow> time t < now \<longrightarrow> beh t = None" by auto
    from Cons.IH show ?thesis
    proof
      assume "\<forall>t. Some t \<in> set xs \<longrightarrow> time t < now \<longrightarrow> beh t = None"
      with hd show ?thesis by auto
    next
      assume "\<exists>pre t post p. xs = pre @ Some t # post \<and>
        (\<forall>u. Some u \<in> set pre \<longrightarrow> time u < now \<longrightarrow> beh u = None) \<and>
        time t < now \<and> beh t = Some p"
      then obtain pre t post p where d: "xs = pre @ Some t # post"
        "\<forall>u. Some u \<in> set pre \<longrightarrow> time u < now \<longrightarrow> beh u = None"
        "time t < now" "beh t = Some p" by blast
      then have "x # xs = (x # pre) @ Some t # post \<and>
        (\<forall>u. Some u \<in> set (x # pre) \<longrightarrow> time u < now \<longrightarrow> beh u = None) \<and>
        time t < now \<and> beh t = Some p" using hd by auto
      then show ?thesis by blast
    qed
  qed
qed

lemma present_clearDue:
  "present (filter (\<lambda>x. x \<noteq> None) (map (clearDue now) xs)) =
     filter (\<lambda>t. \<not> time t < now) (present xs)"
  by (induction xs) (auto simp: clearDue_def split: option.splits)

lemma runTasks_ok:
  assumes "\<forall>t. Some t \<in> set (tasksList q) \<longrightarrow> time t < now \<longrightarrow> beh t = None"
  shows "runTasks beh db now q =
     (if runIds now q \<noteq> [] \<and> \<not> db (runIds now q) then Some StorePersistenceError else None,
      q\<lparr>tasksList := filter (\<lambda>x. x \<noteq> None) (map (clearDue now) (tasksList q)),
        updates := (if runIds now q \<noteq> [] then updates q @ [runIds now q] else updates q),
        calls := calls q @ concat (map hooks (filter (\<lambda>t. time t < now) (working q)))\<rparr>)"
  using sweep_ok [OF assms]
  by (simp add: runTasks_def runLoop_sweep working_def runIds_def)

lemma runTasks_raise:
  assumes "tasksList q = pre @ Some t # post"
    and "\<forall>u. Some u \<in> set pre \<longrightarrow> time u < now \<longrightarrow> beh u = None"
    and "time t < now" and "beh t = Some p"
  shows "runTasks beh db now q =
     (Some (TaskLifecycleError p t),
      q\<lparr>tasksList := map (clearDue now) pre @ Some t # post,
        calls := calls q @ concat (map hooks (filter (\<lambda>t. time t < now) (present pre)))
                   @ hooksUpTo p t\<rparr>)"
  using sweep_raise [OF assms(2,3,4), of post] assms(1)
  by (simp add: runTasks_def runLoop_sweep)

subsection \<open>The timer\<close>

lemma timerDelay_explicit:
  "timerDelay now n =
     (if max 0 (n - now) < 864000000 then max 0 (n - now) else 864000000)"
  by (auto simp: timerDelay_def MAX_TIMER_TIME_def Let_def max_def)

lemma nextTimerTime_scan: "nextTimerTime None xs = fold scanStep (present xs) (- 1)"
  by (simp add: nextTimerTime_def)

lemma updateTimer_fields [simp]:
  "tasksList (updateTimer forced now q) = tasksList q"
  "listeners (updateTimer forced now q) = listeners q"
  "currentTimerTimestamp (updateTimer forced now q) = currentTimerTimestamp q"
  "updates (updateTimer forced now q) = updates q"
  "calls (updateTimer forced now q) = calls q"
  by (simp_all add: updateTimer_def clearTimeout_def setTimeout_def Let_def)

lemma working_updateTimer [simp]: "working (updateTimer forced now q) = working q"
  by (simp add: working_def)

lemma pending_updateTimer:
  "pending (updateTimer forced now q) =
     (if nextTimerTime forced (tasksList q) < 0
      then filter (\<lambda>e. Some (fst e) \<noteq> currentTimer q) (pending q)
      else filter (\<lambda>e. Some (fst e) \<noteq> currentTimer q) (pending q)
             @ [(nextHandle q, now, timerDelay now (nextTimerTime forced (tasksList q)))])"
  by (simp add: updateTimer_def clearTimeout_def setTimeout_def Let_def)

lemma currentTimer_updateTimer:
  "currentTimer (updateTimer forced now q) =
     (if nextTimerTime forced (tasksList q) < 0 then currentTimer q else Some (nextHandle q))"
  by (simp add: updateTimer_def clearTimeout_def setTimeout_def Let_def)

lemma fold_scanStep_bounds:
  "0 \<le> n \<Longrightarrow> \<forall>t\<in>set ts. 0 \<le> time t \<Longrightarrow>
   fold scanStep ts n \<in> insert n (time ` set ts) \<and>
   (\<forall>x\<in>insert n (time ` set ts). fold scanStep ts n \<le> x)"
proof (induction ts arbitrary: n)
  case Nil
  show ?case by simp
next
  case (Cons t ts)
  have step: "scanStep t n = min n (time t)"
    using Cons.prems(1) by (simp add: scanStep_def)
  have "0 \<le> min n (time t)" using Cons.prems by simp
  moreover have "\<forall>t\<in>set ts. 0 \<le> time t" using Cons.prems by simp
  ultimately have IH: "fold scanStep ts (min n (time t)) \<in> insert (min n (time t)) (time ` set ts) \<and>
    (\<forall>x\<in>insert (min n (time t)) (time ` set ts). fold scanStep ts (min n (time t)) \<le> x)"
    by (rule Cons.IH)
  then show ?case
    unfolding fold_simps step by (auto simp: min_def split: if_splits)
qed

lemma fold_scanStep_Min:
  assumes "n < 0" and "ts \<noteq> []" and "\<forall>t\<in>set ts. 0 \<le> time t"
  shows "fold scanStep ts n = Min (time ` set ts)"
proof -
  obtain t ts' where ts: "ts = t # ts'" using assms(2) by (cases ts) auto
  have "0 \<le> time t" and "\<forall>u\<in>set ts'. 0 \<le> time u" using assms(3) ts by auto
  then have "fold scanStep ts' (time t) \<in> insert (time t) (time ` set ts') \<and>
    (\<forall>x\<in>insert (time t) (time ` set ts'). fold scanStep ts' (time t) \<le> x)"
    by (rule fold_scanStep_bounds)
  moreover have "fold scanStep ts n = fold scanStep ts' (time t)"
    using assms(1) ts by (simp add: scanStep_def)
  ultimately have "fold scanStep ts n \<in> time ` set ts \<and>
    (\<forall>x\<in>time ` set ts. fold scanStep ts n \<le> x)"
    using ts by simp
  moreover have "finite (time ` set ts)" and "time ` set ts \<noteq> {}"
    using assms(2) by simp_all
  ultimately have "Min (time ` set ts) = fold scanStep ts n"
    by (intro Min_eqI) auto
  then show ?thesis by simp
qed

lemma fold_scanStep_sign:
  "ts \<noteq> [] \<Longrightarrow> (fold scanStep ts n < 0) = (time (last ts) < 0)"
proof (induction ts arbitrary: n)
  case Nil
  then show ?case by simp
next
  case (Cons t ts)
  show ?case
  proof (cases "ts = []")
    case True
    then show ?thesis by (auto simp: scanStep_def)
  next
    case False
    then have "(fold scanStep ts (scanStep t n) < 0) = (time (last ts) < 0)"
      by (rule Cons.IH)
    with False show ?thesis by simp
  qed
qed

lemma steady_filter:
  "steady q \<Longrightarrow> filter (\<lambda>e. Some (fst e) \<noteq> currentTimer q) (pending q) = []"
  by (auto simp: steady_def)

lemma steady_updateTimer: "steady q \<Longrightarrow> steady (updateTimer forced now q)"
  by (auto simp: steady_def pending_updateTimer currentTimer_updateTimer)

lemma pushTask_steady:
  "steady q \<Longrightarrow> pushTask (Some t) now q =
     updateTimer (Some t) now (q\<lparr>tasksList := tasksList q @ [Some t]\<rparr>)"
  by (simp add: steady_def pushTask_def handleNewTask_def needsUpdate_def Let_def)

lemma steady_pushTask: "steady q \<Longrightarrow> steady (pushTask arg now q)"
proof (cases arg)
  case None
  assume "steady q"
  with None show ?thesis by (simp add: pushTask_def)
next
  case (Some t)
  assume s: "steady q"
  then have "steady (q\<lparr>tasksList := tasksList q @ [Some t]\<rparr>)"
    by (simp add: steady_def)
  then have "steady (updateTimer (Some t) now (q\<lparr>tasksList := tasksList q @ [Some t]\<rparr>))"
    by (rule steady_updateTimer)
  with s Some show ?thesis by (simp add: pushTask_steady)
qed

lemma runTasks_keeps:
  "listeners (snd (runTasks beh db now q)) = listeners q"
  "currentTimerTimestamp (snd (runTasks beh db now q)) = currentTimerTimestamp q"
  "pending (snd (runTasks beh db now q)) = pending q"
  "currentTimer (snd (runTasks beh db now q)) = currentTimer q"
  "nextHandle (snd (runTasks beh db now q)) = nextHandle q"
  by (simp_all add: runTasks_def split: prod.splits option.splits)

lemma steady_timerCallback:
  assumes "steady q"
  shows "steady (snd (timerCallback beh db now now' q))"
proof -
  have s1: "steady (snd (runTasks beh db now q))"
    using assms by (simp add: steady_def runTasks_keeps)
  show ?thesis
  proof (cases "runTasks beh db now q")
    case (Pair r q1)
    with s1 have "steady q1" by simp
    with Pair show ?thesis
      by (cases r) (simp_all add: timerCallback_def steady_updateTimer)
  qed
qed

lemma steady_fire:
  assumes "steady q"
  shows "steady (snd (fire h beh db now now' q))"
proof (cases "h \<in> fst ` set (pending q)")
  case False
  with assms show ?thesis by (simp add: fire_def)
next
  case True
  have "steady (q\<lparr>pending := filter (\<lambda>e. fst e \<noteq> h) (pending q)\<rparr>)"
    using assms True by (auto simp: steady_def)
  then have "steady (snd (timerCallback beh db now now'
      (q\<lparr>pending := filter (\<lambda>e. fst e \<noteq> h) (pending q)\<rparr>)))"
    by (rule steady_timerCallback)
  with True show ?thesis by (simp add: fire_def)
qed

lemma steady_step: "steady q \<Longrightarrow> steady (step op q)"
  by (cases op) (simp_all add: steady_pushTask steady_fire)

lemma steady_exec: "steady q \<Longrightarrow> steady (exec ops q)"
  unfolding exec_def by (induction ops arbitrary: q) (simp_all add: steady_step)

lemma steady_initialize: "steady (snd (initialize resolveTask records now newQueue))"
proof -
  obtain r xs where l: "loadLoop resolveTask records (tasksList (subscribeEvents newQueue)) = (r, xs)"
    by (cases "loadLoop resolveTask records (tasksList (subscribeEvents newQueue))")
  have s: "steady (subscribeEvents newQueue\<lparr>tasksList := xs\<rparr>)"
    by (simp add: steady_def subscribeEvents_def newQueue_def)
  show ?thesis
  proof (cases r)
    case None
    with l s show ?thesis
      by (simp add: initialize_def loadTasksFromDatabase_def steady_updateTimer)
  next
    case (Some e)
    with l s show ?thesis
      by (simp add: initialize_def loadTasksFromDatabase_def)
  qed
qed

lemma steady_started: "steady (started resolveTask records now ops)"
  unfolding started_def by (rule steady_exec) (rule steady_initialize)

subsection \<open>The load and the wake-up as a whole\<close>

lemma loadLoop_ok:
  "map resolveTask rs = map Inr ts \<Longrightarrow>
   loadLoop resolveTask rs xs = (None, xs @ map Some ts)"
proof (induction rs arbitrary: xs ts)
  case Nil
  then show ?case by simp
next
  case (Cons r rs)
  then obtain t ts' where ts: "ts = t # ts'" and r: "resolveTask r = Inr t"
    and rs: "map resolveTask rs = map Inr ts'"
    by (cases ts) auto
  from Cons.IH [OF rs] r ts show ?case by simp
qed

lemma loadLoop_raise:
  "map resolveTask pre = map Inr ts \<Longrightarrow> resolveTask r = Inl e \<Longrightarrow>
   loadLoop resolveTask (pre @ r # post) xs = (Some e, xs @ map Some ts)"
proof (induction pre arbitrary: xs ts)
  case Nil
  then show ?case by simp
next
  case (Cons a pre)
  then obtain t ts' where ts: "ts = t # ts'" and a: "resolveTask a = Inr t"
    and pre: "map resolveTask pre = map Inr ts'"
    by (cases ts) auto
  from Cons.IH [OF pre Cons.prems(2)] a ts show ?case by simp
qed

lemma present_map_clearDue:
  "present (map (clearDue now) xs) = filter (\<lambda>t. \<not> time t < now) (present xs)"
  by (induction xs) (auto simp: clearDue_def split: option.splits)

lemma hooks_tasks: "(ph, t) \<in> set (concat (map hooks ts)) \<Longrightarrow> t \<in> set ts"
  by (auto simp: hooks_def)

lemma hooksUpTo_task: "(ph, u) \<in> set (hooksUpTo p t) \<Longrightarrow> u = t"
  by (cases p) (auto simp: hooksUpTo_def)

text \<open>
  A wake-up either goes through all the due tasks, or stops at the first due task one of
  whose hooks raises.
\<close>

lemma runTasks_cases:
  obtains (completes) "\<forall>t. Some t \<in> set (tasksList q) \<longrightarrow> time t < now \<longrightarrow> beh t = None"
      "runTasks beh db now q =
        (if runIds now q \<noteq> [] \<and> \<not> db (runIds now q) then Some StorePersistenceError else None,
         q\<lparr>tasksList := filter (\<lambda>x. x \<noteq> None) (map (clearDue now) (tasksList q)),
           updates := (if runIds now q \<noteq> [] then updates q @ [runIds now q] else updates q),
           calls := calls q @ concat (map hooks (filter (\<lambda>t. time t < now) (working q)))\<rparr>)"
  | (raises) pre t post p where "tasksList q = pre @ Some t # post"
      "\<forall>u. Some u \<in> set pre \<longrightarrow> time u < now \<longrightarrow> beh u = None"
      "time t < now" "beh t = Some p"
      "runTasks beh db now q =
        (Some (TaskLifecycleError p t),
         q\<lparr>tasksList := map (clearDue now) pre @ Some t # post,
           calls := calls q @ concat (map hooks (filter (\<lambda>t. time t < now) (present pre)))
                   @ hooksUpTo p t\<rparr>)"
  using raise_cases [of "tasksList q" now beh] runTasks_ok [where q = q and now = now and beh = beh and db = db]
    runTasks_raise [where q = q and now = now and beh = beh and db = db]
  by blast

text \<open>The definitions that evaluate the queue on given inputs.\<close>

lemmas queue_defs =
  started_def exec_def initialize_def loadTasksFromDatabase_def subscribeEvents_def
  newQueue_def pushTask_def handleNewTask_def needsUpdate_def updateTimer_def
  clearTimeout_def setTimeout_def nextTimerTime_def scanStep_def timerDelay_def
  MAX_TIMER_TIME_def working_def fire_def timerCallback_def runTasks_def
  resolveReminder_def noRaise_def raisesIn_def resolves_def rejects_def Let_def

section \<open>The claims\<close>

subsection \<open>The timer after an enqueue\<close>

text \<open>
  C1. After an enqueue exactly one timeout should be pending, with the minimum time of
  the working set as its target. With the clock at 5, tasks due at 100 and at 200 are
  enqueued in that order. One timeout is pending afterwards, but it is the one armed
  for the second task: delay 195, target 200, while the minimum time of the working set
  is 100, neither past nor beyond the cap. The guard of line 50 compares with
  \<open>currentTimerTimestamp\<close>, which is never assigned, so the later task replaces the
  timer of the earlier one.
\<close>

theorem enqueue_later_target:
  "pending (started resolveReminder [] 5
      [PushTask (Some \<lparr>task_id = Num 1, time = 100\<rparr>) 5,
       PushTask (Some \<lparr>task_id = Num 2, time = 200\<rparr>) 5]) = [(1, 5, 195)] \<and>
   working (started resolveReminder [] 5
      [PushTask (Some \<lparr>task_id = Num 1, time = 100\<rparr>) 5,
       PushTask (Some \<lparr>task_id = Num 2, time = 200\<rparr>) 5]) =
     [\<lparr>task_id = Num 1, time = 100\<rparr>, \<lparr>task_id = Num 2, time = 200\<rparr>] \<and>
   Min (time ` set (working (started resolveReminder [] 5
      [PushTask (Some \<lparr>task_id = Num 1, time = 100\<rparr>) 5,
       PushTask (Some \<lparr>task_id = Num 2, time = 200\<rparr>) 5]))) = 100"
  by (simp add: queue_defs)

text \<open>
  C2. The test of line 50 reads \<open>currentTimerTimestamp\<close>, which no method assigns, so
  it holds at every enqueue. With a timeout pending for a task due at 100, the enqueue of
  a task due at 200 cancels it (handle 0) and arms a timeout (handle 1) of delay 200,
  while the earliest task is still due at 100.
\<close>

theorem enqueue_later_rearms:
  "pending (started resolveReminder [] 0
      [PushTask (Some \<lparr>task_id = Num 1, time = 100\<rparr>) 0]) = [(0, 0, 100)] \<and>
   pending (started resolveReminder [] 0
      [PushTask (Some \<lparr>task_id = Num 1, time = 100\<rparr>) 0,
       PushTask (Some \<lparr>task_id = Num 2, time = 200\<rparr>) 0]) = [(1, 0, 200)] \<and>
   Min (time ` set (working (started resolveReminder [] 0
      [PushTask (Some \<lparr>task_id = Num 1, time = 100\<rparr>) 0,
       PushTask (Some \<lparr>task_id = Num 2, time = 200\<rparr>) 0]))) = 100"
  by (simp add: queue_defs)

subsection \<open>A hook that raises\<close>

text \<open>
  C3, as the code has it. When a pending timeout fires and, in the order of the list,
  \<open>t\<close> is the first due task one of whose hooks raises, the error leaves the callback.
  The due tasks before \<open>t\<close> have run through their three hooks and their slots are
  holes; the hooks of \<open>t\<close> up to the one that raised have been called; \<open>t\<close> and all
  the slots after it are as they were, and no hook of a later task is called. No update
  is issued, not even for the tasks that ran, and no timeout is armed: apart from the
  list, the timeout that fired and the hooks called, the state is unchanged. The store
  is not reached, so this holds whatever it would answer.
\<close>

theorem raise_aborts_wake_up:
  assumes "h \<in> fst ` set (pending q)"
    and "tasksList q = pre @ Some t # post"
    and "\<forall>u. Some u \<in> set pre \<longrightarrow> time u < now \<longrightarrow> beh u = None"
    and "time t < now" and "beh t = Some p"
  shows "fire h beh db now now' q =
     (Some (TaskLifecycleError p t),
      q\<lparr>tasksList := map (clearDue now) pre @ Some t # post,
        pending := filter (\<lambda>e. fst e \<noteq> h) (pending q),
        calls := calls q @ concat (map hooks (filter (\<lambda>u. time u < now) (present pre)))
                   @ hooksUpTo p t\<rparr>)"
proof -
  let ?q0 = "q\<lparr>pending := filter (\<lambda>e. fst e \<noteq> h) (pending q)\<rparr>"
  have "tasksList ?q0 = pre @ Some t # post" using assms(2) by simp
  from runTasks_raise [OF this assms(3,4,5), of db] assms(1)
  show ?thesis by (simp add: fire_def timerCallback_def)
qed

text \<open>
  Three due tasks, the second raising in \<open>afterRun\<close>: the first has run and left a
  hole, the second and third stay, nothing is written and nothing is armed.
\<close>

theorem raise_aborts_wake_up_witness:
  "fire 2 (raisesIn \<lparr>task_id = Num 2, time = 2\<rparr> AfterRun) resolves 10 11
     (started resolveReminder [] 0
        [PushTask (Some \<lparr>task_id = Num 1, time = 1\<rparr>) 0,
         PushTask (Some \<lparr>task_id = Num 2, time = 2\<rparr>) 0,
         PushTask (Some \<lparr>task_id = Num 3, time = 3\<rparr>) 0]) =
     (Some (TaskLifecycleError AfterRun \<lparr>task_id = Num 2, time = 2\<rparr>),
      \<lparr>tasksList = [None, Some \<lparr>task_id = Num 2, time = 2\<rparr>, Some \<lparr>task_id = Num 3, time = 3\<rparr>],
        currentTimer = Some 2, currentTimerTimestamp = None, listeners = 1,
        pending = [], nextHandle = 3, updates = [],
        calls = [(BeforeRun, \<lparr>task_id = Num 1, time = 1\<rparr>), (Run, \<lparr>task_id = Num 1, time = 1\<rparr>),
                 (AfterRun, \<lparr>task_id = Num 1, time = 1\<rparr>),
                 (BeforeRun, \<lparr>task_id = Num 2, time = 2\<rparr>), (Run, \<lparr>task_id = Num 2, time = 2\<rparr>),
                 (AfterRun, \<lparr>task_id = Num 2, time = 2\<rparr>)]\<rparr>)"
proof -
  let ?a = "\<lparr>task_id = Num 1, time = 1\<rparr>"
  let ?b = "\<lparr>task_id = Num 2, time = 2\<rparr>"
  let ?c = "\<lparr>task_id = Num 3, time = 3\<rparr>"
  let ?q = "started resolveReminder [] 0
        [PushTask (Some ?a) 0, PushTask (Some ?b) 0, PushTask (Some ?c) 0]"
  have q: "?q = \<lparr>tasksList = [Some ?a, Some ?b, Some ?c],
        currentTimer = Some 2, currentTimerTimestamp = None, listeners = 1,
        pending = [(2, 0, 3)], nextHandle = 3, updates = [], calls = []\<rparr>"
    by (simp add: queue_defs)
  have h1: "(2::nat) \<in> fst ` set (pending ?q)" unfolding q by simp
  have h2: "tasksList ?q = [Some ?a] @ Some ?b # [Some ?c]" unfolding q by simp
  have h3: "\<forall>u. Some u \<in> set [Some ?a] \<longrightarrow> time u < 10 \<longrightarrow> raisesIn ?b AfterRun u = None"
    by (simp add: raisesIn_def)
  have h4: "time ?b < 10" by simp
  have h5: "raisesIn ?b AfterRun ?b = Some AfterRun" by (simp add: raisesIn_def)
  show ?thesis
    unfolding raise_aborts_wake_up [OF h1 h2 h3 h4 h5, of resolves 11]
    unfolding q by (simp add: clearDue_def hooks_def hooksUpTo_def)
qed

text \<open>
  Two due tasks, the first raising in \<open>run\<close>: the second is not run, the first is
  still in the list, and no update is issued.
\<close>

theorem raise_aborts_wake_up_counterexample:
  "fire 1 (raisesIn \<lparr>task_id = Num 1, time = 1\<rparr> Run) resolves 10 11
     (started resolveReminder [] 0
        [PushTask (Some \<lparr>task_id = Num 1, time = 1\<rparr>) 0,
         PushTask (Some \<lparr>task_id = Num 2, time = 2\<rparr>) 0]) =
     (Some (TaskLifecycleError Run \<lparr>task_id = Num 1, time = 1\<rparr>),
      \<lparr>tasksList = [Some \<lparr>task_id = Num 1, time = 1\<rparr>, Some \<lparr>task_id = Num 2, time = 2\<rparr>],
        currentTimer = Some 1, currentTimerTimestamp = None, listeners = 1,
        pending = [], nextHandle = 2, updates = [],
        calls = [(BeforeRun, \<lparr>task_id = Num 1, time = 1\<rparr>), (Run, \<lparr>task_id = Num 1, time = 1\<rparr>)]\<rparr>)"
  by (simp add: queue_defs runLoop.simps lifecycle_def)

subsection \<open>The load at startup\<close>

text \<open>
  C4, as the code has it. When the loader resolves every record, \<^verbatim>\<open>initialize\<close>
  returns, with the tasks appended in the order of the records and the timer updated by
  a scan. When the loader raises on a record, the error leaves \<^verbatim>\<open>initialize\<close>: the
  tasks of the records before it are in the list, those of the records after it are
  not, and \<^verbatim>\<open>#updateTimer\<close> is not called.
\<close>

theorem initialize_load:
  "(map resolveTask records = map Inr ts \<longrightarrow>
      initialize resolveTask records now q =
        (None, updateTimer None now
           (q\<lparr>listeners := Suc (listeners q), tasksList := tasksList q @ map Some ts\<rparr>))) \<and>
   (map resolveTask pre = map Inr ts \<and> resolveTask r = Inl e \<longrightarrow>
      initialize resolveTask (pre @ r # post) now q =
        (Some e, q\<lparr>listeners := Suc (listeners q), tasksList := tasksList q @ map Some ts\<rparr>))"
  by (simp add: initialize_def loadTasksFromDatabase_def subscribeEvents_def
      loadLoop_ok loadLoop_raise)

text \<open>
  Two valid records give two tasks and a timeout for the earlier one; with an unknown
  discriminator in second place only the first of four records is loaded.
\<close>

theorem initialize_load_witness:
  "initialize resolveReminder
     [\<lparr>rec_id = 1, rec_type = ''reminder'', rec_time = 100\<rparr>,
      \<lparr>rec_id = 2, rec_type = ''reminder'', rec_time = 50\<rparr>] 0 newQueue =
     (None, \<lparr>tasksList = [Some \<lparr>task_id = Num 1, time = 100\<rparr>, Some \<lparr>task_id = Num 2, time = 50\<rparr>],
        currentTimer = Some 0, currentTimerTimestamp = None, listeners = 1,
        pending = [(0, 0, 50)], nextHandle = 1, updates = [], calls = []\<rparr>) \<and>
   initialize resolveReminder
     [\<lparr>rec_id = 1, rec_type = ''reminder'', rec_time = 100\<rparr>,
      \<lparr>rec_id = 2, rec_type = ''poll'', rec_time = 50\<rparr>,
      \<lparr>rec_id = 3, rec_type = ''reminder'', rec_time = 20\<rparr>,
      \<lparr>rec_id = 4, rec_type = ''reminder'', rec_time = 30\<rparr>] 0 newQueue =
     (Some UnknownVariantError,
      \<lparr>tasksList = [Some \<lparr>task_id = Num 1, time = 100\<rparr>],
        currentTimer = None, currentTimerTimestamp = None, listeners = 1,
        pending = [], nextHandle = 0, updates = [], calls = []\<rparr>)"
proof -
  let ?r1 = "\<lparr>rec_id = 1, rec_type = ''reminder'', rec_time = 100\<rparr>"
  let ?r2 = "\<lparr>rec_id = 2, rec_type = ''reminder'', rec_time = 50\<rparr>"
  let ?bad = "\<lparr>rec_id = 2, rec_type = ''poll'', rec_time = 50\<rparr>"
  let ?r3 = "\<lparr>rec_id = 3, rec_type = ''reminder'', rec_time = 20\<rparr>"
  let ?r4 = "\<lparr>rec_id = 4, rec_type = ''reminder'', rec_time = 30\<rparr>"
  let ?t1 = "\<lparr>task_id = Num 1, time = 100\<rparr>"
  let ?t2 = "\<lparr>task_id = Num 2, time = 50\<rparr>"
  have h: "map resolveReminder [?r1, ?r2] = map Inr [?t1, ?t2]"
    by (simp add: resolveReminder_def)
  have g: "map resolveReminder [?r1] = map Inr [?t1] \<and> resolveReminder ?bad = Inl UnknownVariantError"
    by (simp add: resolveReminder_def)
  from initialize_load [of resolveReminder "[?r1, ?r2]" "[?t1, ?t2]" 0 newQueue] h
  have a: "initialize resolveReminder [?r1, ?r2] 0 newQueue =
        (None, updateTimer None 0
           (newQueue\<lparr>listeners := Suc (listeners newQueue),
               tasksList := tasksList newQueue @ map Some [?t1, ?t2]\<rparr>))"
    by blast
  from initialize_load [of resolveReminder _ "[?t1]" 0 newQueue "[?r1]" ?bad UnknownVariantError "[?r3, ?r4]"] g
  have b: "initialize resolveReminder ([?r1] @ ?bad # [?r3, ?r4]) 0 newQueue =
        (Some UnknownVariantError, newQueue\<lparr>listeners := Suc (listeners newQueue),
               tasksList := tasksList newQueue @ map Some [?t1]\<rparr>)"
    by blast
  have a': "initialize resolveReminder [?r1, ?r2] 0 newQueue =
     (None, \<lparr>tasksList = [Some ?t1, Some ?t2],
        currentTimer = Some 0, currentTimerTimestamp = None, listeners = 1,
        pending = [(0, 0, 50)], nextHandle = 1, updates = [], calls = []\<rparr>)"
    unfolding a
    by (simp add: newQueue_def updateTimer_def clearTimeout_def setTimeout_def nextTimerTime_def
        scanStep_def timerDelay_def MAX_TIMER_TIME_def Let_def)
  have b': "initialize resolveReminder [?r1, ?bad, ?r3, ?r4] 0 newQueue =
     (Some UnknownVariantError,
      \<lparr>tasksList = [Some ?t1],
        currentTimer = None, currentTimerTimestamp = None, listeners = 1,
        pending = [], nextHandle = 0, updates = [], calls = []\<rparr>)"
    using b by (simp add: newQueue_def)
  from a' b' show ?thesis by (rule conjI)
qed

text \<open>
  The scenario of the specification: a record of type \<open>unknown_type\<close> between two
  valid ones. The error leaves \<^verbatim>\<open>initialize\<close>, the third record is not loaded and no
  timeout is armed.
\<close>

theorem initialize_unknown_counterexample:
  "initialize resolveReminder
     [\<lparr>rec_id = 1, rec_type = ''reminder'', rec_time = 100\<rparr>,
      \<lparr>rec_id = 2, rec_type = ''unknown_type'', rec_time = 50\<rparr>,
      \<lparr>rec_id = 3, rec_type = ''reminder'', rec_time = 70\<rparr>] 0 newQueue =
     (Some UnknownVariantError,
      \<lparr>tasksList = [Some \<lparr>task_id = Num 1, time = 100\<rparr>],
        currentTimer = None, currentTimerTimestamp = None, listeners = 1,
        pending = [], nextHandle = 0, updates = [], calls = []\<rparr>)"
  by (simp add: queue_defs)

subsection \<open>The tasks a wake-up runs\<close>

text \<open>
  C5, as the code has it. In a wake-up where no hook of a due task raises, the hooks
  called are the three hooks of each task of the working set whose time is strictly
  below \<open>now\<close>, once each and in the order of the list, and the working set afterwards
  is the other tasks; the method returns, unless the store rejects the update it
  issued. In every wake-up a task whose time equals \<open>now\<close> has none of its hooks
  called and stays in the working set.
\<close>

theorem wake_up_runs_due:
  assumes "q' = snd (runTasks beh db now q)"
  shows "((\<forall>t. Some t \<in> set (tasksList q) \<longrightarrow> time t < now \<longrightarrow> beh t = None) \<longrightarrow>
           fst (runTasks beh db now q) =
             (if runIds now q \<noteq> [] \<and> \<not> db (runIds now q) then Some StorePersistenceError
              else None) \<and>
           calls q' = calls q @ concat (map hooks (filter (\<lambda>t. time t < now) (working q))) \<and>
           working q' = filter (\<lambda>t. \<not> time t < now) (working q)) \<and>
         (\<forall>t\<in>set (working q). time t = now \<longrightarrow>
            t \<in> set (working q') \<and>
            (\<forall>ph. (ph, t) \<notin> set (drop (length (calls q)) (calls q'))))"
proof (cases rule: runTasks_cases [of q now beh db])
  case completes
  have w: "working q' = filter (\<lambda>t. \<not> time t < now) (working q)"
    using assms completes(2) present_clearDue [of now "tasksList q"]
    by (simp add: working_def)
  have c: "calls q' = calls q @ concat (map hooks (filter (\<lambda>t. time t < now) (working q)))"
    using assms completes(2) by simp
  have "\<forall>ph. (ph, t) \<notin> set (drop (length (calls q)) (calls q'))" if "time t = now" for t
    using that hooks_tasks [of _ t "filter (\<lambda>t. time t < now) (working q)"] unfolding c by auto
  with w c completes(2) show ?thesis by auto
next
  case (raises pre t post p)
  have nc: "\<not> (\<forall>t. Some t \<in> set (tasksList q) \<longrightarrow> time t < now \<longrightarrow> beh t = None)"
    using raises(1,3,4) by auto
  have w: "working q' = filter (\<lambda>t. \<not> time t < now) (present pre) @ t # present post"
    using assms raises(5) by (simp add: working_def present_map_clearDue)
  have w0: "working q = present pre @ t # present post"
    using raises(1) by (simp add: working_def)
  have c: "drop (length (calls q)) (calls q') =
      concat (map hooks (filter (\<lambda>t. time t < now) (present pre))) @ hooksUpTo p t"
    using assms raises(5) by simp
  have "\<forall>ph. (ph, u) \<notin> set (drop (length (calls q)) (calls q'))" if "time u = now" for u
    using that raises(3) hooks_tasks [of _ u "filter (\<lambda>t. time t < now) (present pre)"]
      hooksUpTo_task [of _ u p t]
    unfolding c by auto
  moreover have "u \<in> set (working q')" if "u \<in> set (working q)" "time u = now" for u
    using that unfolding w w0 by auto
  ultimately show ?thesis using nc by blast
qed

text \<open>Tasks due at 3, 10 and 20 with the clock at 10: the first runs, the others stay.\<close>

theorem wake_up_runs_due_witness:
  "fst (runTasks noRaise resolves 10 (snd (initialize resolveReminder
      [\<lparr>rec_id = 1, rec_type = ''reminder'', rec_time = 3\<rparr>,
       \<lparr>rec_id = 2, rec_type = ''reminder'', rec_time = 10\<rparr>,
       \<lparr>rec_id = 3, rec_type = ''reminder'', rec_time = 20\<rparr>] 0 newQueue))) = None \<and>
   working (snd (runTasks noRaise resolves 10 (snd (initialize resolveReminder
      [\<lparr>rec_id = 1, rec_type = ''reminder'', rec_time = 3\<rparr>,
       \<lparr>rec_id = 2, rec_type = ''reminder'', rec_time = 10\<rparr>,
       \<lparr>rec_id = 3, rec_type = ''reminder'', rec_time = 20\<rparr>] 0 newQueue)))) =
     [\<lparr>task_id = Num 2, time = 10\<rparr>, \<lparr>task_id = Num 3, time = 20\<rparr>] \<and>
   calls (snd (runTasks noRaise resolves 10 (snd (initialize resolveReminder
      [\<lparr>rec_id = 1, rec_type = ''reminder'', rec_time = 3\<rparr>,
       \<lparr>rec_id = 2, rec_type = ''reminder'', rec_time = 10\<rparr>,
       \<lparr>rec_id = 3, rec_type = ''reminder'', rec_time = 20\<rparr>] 0 newQueue)))) =
     [(BeforeRun, \<lparr>task_id = Num 1, time = 3\<rparr>), (Run, \<lparr>task_id = Num 1, time = 3\<rparr>),
      (AfterRun, \<lparr>task_id = Num 1, time = 3\<rparr>)]"
proof -
  let ?q = "snd (initialize resolveReminder
      [\<lparr>rec_id = 1, rec_type = ''reminder'', rec_time = 3\<rparr>,
       \<lparr>rec_id = 2, rec_type = ''reminder'', rec_time = 10\<rparr>,
       \<lparr>rec_id = 3, rec_type = ''reminder'', rec_time = 20\<rparr>] 0 newQueue)"
  have q: "?q = \<lparr>tasksList = [Some \<lparr>task_id = Num 1, time = 3\<rparr>, Some \<lparr>task_id = Num 2, time = 10\<rparr>,
          Some \<lparr>task_id = Num 3, time = 20\<rparr>],
        currentTimer = Some 0, currentTimerTimestamp = None, listeners = 1,
        pending = [(0, 0, 3)], nextHandle = 1, updates = [], calls = []\<rparr>"
    by (simp add: queue_defs)
  have h: "\<forall>t. Some t \<in> set (tasksList ?q) \<longrightarrow> time t < 10 \<longrightarrow> noRaise t = None"
    by (simp add: noRaise_def)
  from wake_up_runs_due [where q = "?q" and beh = noRaise and db = resolves and now = 10, OF refl] h
  have "fst (runTasks noRaise resolves 10 ?q) =
       (if runIds 10 ?q \<noteq> [] \<and> \<not> resolves (runIds 10 ?q) then Some StorePersistenceError
        else None) \<and>
     calls (snd (runTasks noRaise resolves 10 ?q)) =
       calls ?q @ concat (map hooks (filter (\<lambda>t. time t < 10) (working ?q))) \<and>
     working (snd (runTasks noRaise resolves 10 ?q)) = filter (\<lambda>t. \<not> time t < 10) (working ?q)"
    by blast
  moreover have "working ?q = [\<lparr>task_id = Num 1, time = 3\<rparr>, \<lparr>task_id = Num 2, time = 10\<rparr>,
      \<lparr>task_id = Num 3, time = 20\<rparr>]" and "calls ?q = []"
    unfolding q by (simp_all add: working_def)
  ultimately show ?thesis by (simp add: hooks_def resolves_def)
qed

text \<open>
  Two tasks due at 1 and 2 with the clock at 10, the first raising in \<open>beforeRun\<close>:
  the second is due and none of its hooks is called.
\<close>

theorem wake_up_raise_counterexample:
  "time \<lparr>task_id = Num 2, time = 2\<rparr> < 10 \<and>
   \<lparr>task_id = Num 2, time = 2\<rparr> \<in> set (working (snd (initialize resolveReminder
      [\<lparr>rec_id = 1, rec_type = ''reminder'', rec_time = 1\<rparr>,
       \<lparr>rec_id = 2, rec_type = ''reminder'', rec_time = 2\<rparr>] 0 newQueue))) \<and>
   calls (snd (runTasks (raisesIn \<lparr>task_id = Num 1, time = 1\<rparr> BeforeRun) resolves 10
     (snd (initialize resolveReminder
      [\<lparr>rec_id = 1, rec_type = ''reminder'', rec_time = 1\<rparr>,
       \<lparr>rec_id = 2, rec_type = ''reminder'', rec_time = 2\<rparr>] 0 newQueue)))) =
     [(BeforeRun, \<lparr>task_id = Num 1, time = 1\<rparr>)]"
  by (simp add: queue_defs runLoop.simps lifecycle_def)

subsection \<open>The update of a wake-up\<close>

text \<open>
  C6, as the code has it. A wake-up issues no update or exactly one. When it issues
  one, the wake-up has gone through all the due tasks, the hooks called are those of the
  due tasks, at least one of these has an id that is truthy, and the list passed is the
  truthy ids of the tasks run, in the order of the list: the test of line 102 leaves out
  an id that is absent, null, zero or the empty string. A wake-up that goes through
  with a truthy id among the tasks run does issue the update.
\<close>

theorem one_update_per_wake_up:
  assumes "q' = snd (runTasks beh db now q)"
    and "ids = map task_id (filter (\<lambda>t. truthy (task_id t))
                 (filter (\<lambda>t. time t < now) (working q)))"
  shows "(updates q' = updates q \<or> updates q' = updates q @ [ids]) \<and>
         (updates q' \<noteq> updates q \<longrightarrow>
            ids \<noteq> [] \<and>
            (\<forall>t. Some t \<in> set (tasksList q) \<longrightarrow> time t < now \<longrightarrow> beh t = None) \<and>
            drop (length (calls q)) (calls q') =
              concat (map hooks (filter (\<lambda>t. time t < now) (working q)))) \<and>
         ((\<forall>t. Some t \<in> set (tasksList q) \<longrightarrow> time t < now \<longrightarrow> beh t = None) \<and> ids \<noteq> [] \<longrightarrow>
            updates q' = updates q @ [ids])"
proof (cases rule: runTasks_cases [of q now beh db])
  case completes
  with assms show ?thesis by (auto simp: runIds_def)
next
  case (raises pre t post p)
  have "\<not> (\<forall>t. Some t \<in> set (tasksList q) \<longrightarrow> time t < now \<longrightarrow> beh t = None)"
    using raises(1,3,4) by auto
  with raises assms show ?thesis by simp
qed

text \<open>Ids 1, null and 7 due, id 8 not due: one update, with 1 and 7.\<close>

theorem one_update_per_wake_up_witness:
  "updates (snd (runTasks noRaise resolves 10 (started resolveReminder [] 0
      [PushTask (Some \<lparr>task_id = Num 1, time = 3\<rparr>) 0,
       PushTask (Some \<lparr>task_id = Null, time = 4\<rparr>) 0,
       PushTask (Some \<lparr>task_id = Num 7, time = 5\<rparr>) 0,
       PushTask (Some \<lparr>task_id = Num 8, time = 20\<rparr>) 0]))) = [[Num 1, Num 7]]"
proof -
  let ?q = "started resolveReminder [] 0
      [PushTask (Some \<lparr>task_id = Num 1, time = 3\<rparr>) 0,
       PushTask (Some \<lparr>task_id = Null, time = 4\<rparr>) 0,
       PushTask (Some \<lparr>task_id = Num 7, time = 5\<rparr>) 0,
       PushTask (Some \<lparr>task_id = Num 8, time = 20\<rparr>) 0]"
  have q: "?q = \<lparr>tasksList = [Some \<lparr>task_id = Num 1, time = 3\<rparr>, Some \<lparr>task_id = Null, time = 4\<rparr>,
          Some \<lparr>task_id = Num 7, time = 5\<rparr>, Some \<lparr>task_id = Num 8, time = 20\<rparr>],
        currentTimer = Some 3, currentTimerTimestamp = None, listeners = 1,
        pending = [(3, 0, 20)], nextHandle = 4, updates = [], calls = []\<rparr>"
    by (simp add: queue_defs)
  have ids: "[Num 1, Num 7] = map task_id (filter (\<lambda>t. truthy (task_id t))
                 (filter (\<lambda>t. time t < 10) (working ?q)))"
    unfolding q by (simp add: working_def)
  have ok: "\<forall>t. Some t \<in> set (tasksList ?q) \<longrightarrow> time t < 10 \<longrightarrow> noRaise t = None"
    by (simp add: noRaise_def)
  from one_update_per_wake_up [where beh = noRaise and db = resolves, OF refl ids] ok
  have "updates (snd (runTasks noRaise resolves 10 ?q)) = updates ?q @ [[Num 1, Num 7]]"
    by blast
  then show ?thesis unfolding q by simp
qed

text \<open>
  Tasks with ids 0 and 5, both due: the hooks of both are called and the update has
  the id 5 only, not the ids of the tasks run.
\<close>

theorem update_truthy_counterexample:
  "calls (snd (runTasks noRaise resolves 10 (started resolveReminder [] 0
      [PushTask (Some \<lparr>task_id = Num 0, time = 7\<rparr>) 0,
       PushTask (Some \<lparr>task_id = Num 5, time = 8\<rparr>) 0]))) =
     [(BeforeRun, \<lparr>task_id = Num 0, time = 7\<rparr>), (Run, \<lparr>task_id = Num 0, time = 7\<rparr>),
      (AfterRun, \<lparr>task_id = Num 0, time = 7\<rparr>),
      (BeforeRun, \<lparr>task_id = Num 5, time = 8\<rparr>), (Run, \<lparr>task_id = Num 5, time = 8\<rparr>),
      (AfterRun, \<lparr>task_id = Num 5, time = 8\<rparr>)] \<and>
   updates (snd (runTasks noRaise resolves 10 (started resolveReminder [] 0
      [PushTask (Some \<lparr>task_id = Num 0, time = 7\<rparr>) 0,
       PushTask (Some \<lparr>task_id = Num 5, time = 8\<rparr>) 0]))) = [[Num 5]]"
  by (simp add: queue_defs runLoop.simps lifecycle_def)

text \<open>
  C9. A task that is due, and such that neither it nor a due task before it raises, is
  run. It then leaves the working set: its slot is a hole when a later task raises, and
  it is not in the filtered list otherwise, whether the store then accepts the update or
  rejects it. Its id is in an update issued by the wake-up exactly when the id is
  truthy: an id that is absent, null, zero or the empty string is left out.
\<close>

theorem falsy_id_not_written:
  assumes "q' = snd (runTasks beh db now q)"
    and "i < length (tasksList q)" and "tasksList q ! i = Some t" and "time t < now"
    and "\<forall>j\<le>i. \<forall>u. tasksList q ! j = Some u \<longrightarrow> time u < now \<longrightarrow> beh u = None"
  shows "((\<exists>ph u. fst (runTasks beh db now q) = Some (TaskLifecycleError ph u)) \<longrightarrow>
            tasksList q' ! i = None) \<and>
         ((\<forall>ph u. fst (runTasks beh db now q) \<noteq> Some (TaskLifecycleError ph u)) \<longrightarrow>
            t \<notin> set (working q')) \<and>
         (\<forall>w\<in>set (drop (length (updates q)) (updates q')).
            (task_id t \<in> set w) = truthy (task_id t))"
proof (cases rule: runTasks_cases [of q now beh db])
  case completes
  have w: "working q' = filter (\<lambda>t. \<not> time t < now) (working q)"
    using assms(1) completes(2) present_clearDue [of now "tasksList q"]
    by (simp add: working_def)
  have "t \<in> set (working q)"
    using assms(2,3) by (simp add: working_def set_present) (metis nth_mem)
  then have "truthy (task_id t) \<Longrightarrow> task_id t \<in> set (runIds now q)"
    using assms(4) by (auto simp: runIds_def)
  moreover have "\<not> truthy (task_id t) \<Longrightarrow> task_id t \<notin> set (runIds now q)"
    by (auto simp: runIds_def)
  ultimately have "\<forall>w\<in>set (drop (length (updates q)) (updates q')).
            (task_id t \<in> set w) = truthy (task_id t)"
    using assms(1) completes(2) by auto
  moreover have "t \<notin> set (working q')" using assms(4) unfolding w by simp
  moreover have "\<not> (\<exists>ph u. fst (runTasks beh db now q) = Some (TaskLifecycleError ph u))"
    using completes(2) by simp
  ultimately show ?thesis by blast
next
  case (raises pre t' post p)
  have "i < length pre"
  proof (rule ccontr)
    assume "\<not> i < length pre"
    then have "length pre \<le> i" by simp
    moreover have "tasksList q ! length pre = Some t'" using raises(1) by simp
    ultimately have "beh t' = None" using assms(5) raises(3) by blast
    with raises(4) show False by simp
  qed
  then have "pre ! i = Some t" using assms(3) raises(1) by (simp add: nth_append)
  then have "(map (clearDue now) pre @ Some t' # post) ! i = None"
    using \<open>i < length pre\<close> assms(4) by (simp add: nth_append clearDue_def)
  with assms(1) raises(5) show ?thesis by simp
qed

text \<open>A task with id 0 runs and leaves the list; the update has the other id only.\<close>

theorem falsy_id_not_written_witness:
  "tasksList (started resolveReminder [] 0
      [PushTask (Some \<lparr>task_id = Num 0, time = 3\<rparr>) 0,
       PushTask (Some \<lparr>task_id = Num 5, time = 4\<rparr>) 0]) ! 0 = Some \<lparr>task_id = Num 0, time = 3\<rparr> \<and>
   time \<lparr>task_id = Num 0, time = 3\<rparr> < 10 \<and>
   \<not> truthy (task_id \<lparr>task_id = Num 0, time = 3\<rparr>) \<and>
   \<lparr>task_id = Num 0, time = 3\<rparr> \<notin> set (working (snd (runTasks noRaise resolves 10 (started resolveReminder [] 0
      [PushTask (Some \<lparr>task_id = Num 0, time = 3\<rparr>) 0,
       PushTask (Some \<lparr>task_id = Num 5, time = 4\<rparr>) 0])))) \<and>
   updates (snd (runTasks noRaise resolves 10 (started resolveReminder [] 0
      [PushTask (Some \<lparr>task_id = Num 0, time = 3\<rparr>) 0,
       PushTask (Some \<lparr>task_id = Num 5, time = 4\<rparr>) 0]))) = [[Num 5]]"
proof -
  let ?a = "\<lparr>task_id = Num 0, time = 3\<rparr>"
  let ?q = "started resolveReminder [] 0
      [PushTask (Some ?a) 0, PushTask (Some \<lparr>task_id = Num 5, time = 4\<rparr>) 0]"
  have q: "?q = \<lparr>tasksList = [Some ?a, Some \<lparr>task_id = Num 5, time = 4\<rparr>],
        currentTimer = Some 1, currentTimerTimestamp = None, listeners = 1,
        pending = [(1, 0, 4)], nextHandle = 2, updates = [], calls = []\<rparr>"
    by (simp add: queue_defs)
  have h1: "0 < length (tasksList ?q)" and h2: "tasksList ?q ! 0 = Some ?a"
    unfolding q by simp_all
  have h3: "time ?a < 10" by simp
  have h4: "\<forall>j\<le>0. \<forall>u. tasksList ?q ! j = Some u \<longrightarrow> time u < 10 \<longrightarrow> noRaise u = None"
    by (simp add: noRaise_def)
  have ok: "fst (runTasks noRaise resolves 10 ?q) = None"
    and up: "updates (snd (runTasks noRaise resolves 10 ?q)) = [[Num 5]]"
    unfolding q by (simp_all add: runTasks_def runLoop.simps lifecycle_def noRaise_def resolves_def)
  from falsy_id_not_written [OF refl h1 h2 h3 h4, of resolves] ok
  have "?a \<notin> set (working (snd (runTasks noRaise resolves 10 ?q)))" by simp
  with h2 up show ?thesis by simp
qed

subsection \<open>The delay of the timer\<close>

text \<open>
  C7. Whenever \<^verbatim>\<open>#updateTimer\<close> has a candidate \<open>n\<close> (a time that is not negative,
  from the forced task or from the scan), it cancels the timeout of \<open>currentTimer\<close> and
  arms one timeout, whose delay is \<open>max 0 (n - now)\<close> when this is below
  \<open>864000000\<close> milliseconds (ten days) and \<open>864000000\<close> otherwise. The delay is
  never negative and never above \<open>864000000\<close>.
\<close>

theorem updateTimer_delay:
  assumes "n = nextTimerTime forced (tasksList q)" and "0 \<le> n"
  shows "\<exists>d. pending (updateTimer forced now q) =
             filter (\<lambda>e. Some (fst e) \<noteq> currentTimer q) (pending q) @ [(nextHandle q, now, d)] \<and>
           currentTimer (updateTimer forced now q) = Some (nextHandle q) \<and>
           d = (if max 0 (n - now) < 864000000 then max 0 (n - now) else 864000000) \<and>
           0 \<le> d \<and> d \<le> 864000000"
proof -
  have "\<not> nextTimerTime forced (tasksList q) < 0" using assms by simp
  then have "pending (updateTimer forced now q) =
      filter (\<lambda>e. Some (fst e) \<noteq> currentTimer q) (pending q) @ [(nextHandle q, now, timerDelay now n)]"
    and "currentTimer (updateTimer forced now q) = Some (nextHandle q)"
    using assms(1) by (simp_all add: pending_updateTimer currentTimer_updateTimer)
  moreover have "timerDelay now n =
      (if max 0 (n - now) < 864000000 then max 0 (n - now) else 864000000)"
    by (rule timerDelay_explicit)
  moreover have "0 \<le> timerDelay now n \<and> timerDelay now n \<le> 864000000"
    by (simp add: timerDelay_explicit)
  ultimately show ?thesis by blast
qed

text \<open>A scan at time 100 over one task due at 500 arms a timeout of 400.\<close>

theorem updateTimer_delay_witness:
  "(500::int) = nextTimerTime None (tasksList (newQueue\<lparr>tasksList := [Some \<lparr>task_id = Num 1, time = 500\<rparr>]\<rparr>)) \<and>
   (0::int) \<le> 500 \<and>
   pending (updateTimer None 100 (newQueue\<lparr>tasksList := [Some \<lparr>task_id = Num 1, time = 500\<rparr>]\<rparr>))
     = [(0, 100, 400)]"
proof -
  let ?q = "newQueue\<lparr>tasksList := [Some \<lparr>task_id = Num 1, time = 500\<rparr>]\<rparr>"
  have h: "(500::int) = nextTimerTime None (tasksList ?q)"
    by (simp add: nextTimerTime_def scanStep_def)
  show ?thesis
    using h updateTimer_delay [OF h, of 100] by (simp add: newQueue_def)
qed

subsection \<open>The timer after a wake-up\<close>

text \<open>
  C8, as the code has it. When a pending timeout fires and the run phase completes,
  that is no hook of a due task raises and the store does not reject the update if one
  is issued, \<^verbatim>\<open>#updateTimer\<close> runs, whatever the number of tasks that were due, none
  included. With the clock at or after the epoch, the working set is then the tasks
  that were not due; when it is not empty exactly one timeout is pending, armed at the
  second reading of the clock for the minimum time of the working set, and when it is
  empty none is.
\<close>

theorem fire_rearms:
  assumes "q = started resolveTask records now0 ops"
    and "h \<in> fst ` set (pending q)"
    and "0 \<le> now"
    and "\<forall>t. Some t \<in> set (tasksList q) \<longrightarrow> time t < now \<longrightarrow> beh t = None"
    and "runIds now q = [] \<or> db (runIds now q)"
    and "q' = snd (fire h beh db now now' q)"
  shows "fst (fire h beh db now now' q) = None \<and>
     working q' = filter (\<lambda>t. \<not> time t < now) (working q) \<and>
     (working q' = [] \<longrightarrow> pending q' = []) \<and>
     (working q' \<noteq> [] \<longrightarrow>
        (\<exists>h'. pending q' = [(h', now', timerDelay now' (Min (time ` set (working q'))))] \<and>
              currentTimer q' = Some h'))"
proof -
  let ?q0 = "q\<lparr>pending := filter (\<lambda>e. fst e \<noteq> h) (pending q)\<rparr>"
  have st: "steady q" using assms(1) by (simp add: steady_started)
  have p0: "pending ?q0 = []" using st assms(2) by (auto simp: steady_def)
  have ok: "\<forall>t. Some t \<in> set (tasksList ?q0) \<longrightarrow> time t < now \<longrightarrow> beh t = None"
    using assms(4) by simp
  have ids: "runIds now ?q0 = runIds now q" by (simp add: runIds_def working_def)
  obtain q1 where rt: "runTasks beh db now ?q0 = (None, q1)"
    and tl: "tasksList q1 = filter (\<lambda>x. x \<noteq> None) (map (clearDue now) (tasksList q))"
    and p1: "pending q1 = []"
    using runTasks_ok [OF ok, of db] p0 assms(5) unfolding ids by auto
  have f: "fire h beh db now now' q = (None, updateTimer None now' q1)"
    using assms(2) rt by (simp add: fire_def timerCallback_def)
  then have q': "q' = updateTimer None now' q1" using assms(6) by simp
  have "present (tasksList q1) = filter (\<lambda>t. \<not> time t < now) (present (tasksList q))"
    unfolding tl by (rule present_clearDue)
  then have w: "working q' = filter (\<lambda>t. \<not> time t < now) (working q)"
    unfolding q' by (simp add: working_def)
  have w1: "present (tasksList q1) = working q'"
    unfolding q' by (simp add: working_def)
  have nonneg: "\<forall>t\<in>set (working q'). 0 \<le> time t"
    using assms(3) unfolding w by auto
  have e: "pending q' = []" if "working q' = []"
    using that p1 unfolding q' pending_updateTimer nextTimerTime_scan w1 by simp
  have ne: "\<exists>h'. pending q' = [(h', now', timerDelay now' (Min (time ` set (working q'))))] \<and>
              currentTimer q' = Some h'" if "working q' \<noteq> []"
  proof -
    have m: "fold scanStep (working q') (- 1) = Min (time ` set (working q'))"
      using that nonneg by (intro fold_scanStep_Min) simp_all
    have "0 \<le> Min (time ` set (working q'))"
      using that nonneg by (simp add: Min_ge_iff)
    with m have n1: "nextTimerTime None (tasksList q1) = Min (time ` set (working q'))"
      and "\<not> nextTimerTime None (tasksList q1) < 0"
      by (simp_all add: nextTimerTime_scan w1)
    then have "pending (updateTimer None now' q1) =
        [(nextHandle q1, now', timerDelay now' (Min (time ` set (working q'))))]"
      and "currentTimer (updateTimer None now' q1) = Some (nextHandle q1)"
      using p1 by (simp_all add: pending_updateTimer currentTimer_updateTimer)
    then show ?thesis
      unfolding q' [symmetric] by blast
  qed
  from f w e ne show ?thesis by simp
qed

text \<open>
  Tasks due at 5 and at 2000; the timeout fires at time 10, the first task runs, its
  id is written, and a timeout of 1989 is armed at time 11 for the second.
\<close>

theorem fire_rearms_witness:
  "(1::nat) \<in> fst ` set (pending (started resolveReminder [] 0
        [PushTask (Some \<lparr>task_id = Num 1, time = 5\<rparr>) 0,
         PushTask (Some \<lparr>task_id = Num 2, time = 2000\<rparr>) 0])) \<and>
   (0::int) \<le> 10 \<and>
   map snd (pending (snd (fire 1 noRaise resolves 10 11 (started resolveReminder [] 0
        [PushTask (Some \<lparr>task_id = Num 1, time = 5\<rparr>) 0,
         PushTask (Some \<lparr>task_id = Num 2, time = 2000\<rparr>) 0])))) = [(11, 1989)]"
proof -
  let ?q = "started resolveReminder [] 0
        [PushTask (Some \<lparr>task_id = Num 1, time = 5\<rparr>) 0,
         PushTask (Some \<lparr>task_id = Num 2, time = 2000\<rparr>) 0]"
  let ?q' = "snd (fire 1 noRaise resolves 10 11 ?q)"
  have tl: "tasksList ?q = [Some \<lparr>task_id = Num 1, time = 5\<rparr>, Some \<lparr>task_id = Num 2, time = 2000\<rparr>]"
    by (simp add: queue_defs)
  have pd: "pending ?q = [(1, 0, 2000)]"
    by (simp add: queue_defs)
  have h1: "(1::nat) \<in> fst ` set (pending ?q)" by (simp add: pd)
  have h2: "(0::int) \<le> 10" by simp
  have h3: "\<forall>t. Some t \<in> set (tasksList ?q) \<longrightarrow> time t < 10 \<longrightarrow> noRaise t = None"
    by (simp add: noRaise_def)
  have h4: "runIds 10 ?q = [] \<or> resolves (runIds 10 ?q)"
    by (simp add: resolves_def)
  from fire_rearms [where q = "?q" and resolveTask = resolveReminder and records = "[]"
      and h = 1 and now = 10 and now' = 11 and beh = noRaise and db = resolves,
      OF refl h1 h2 h3 h4 refl]
  have w: "working ?q' = filter (\<lambda>t. \<not> time t < 10) (working ?q)"
    and a: "working ?q' \<noteq> [] \<longrightarrow>
        (\<exists>h'. pending ?q' = [(h', 11, timerDelay 11 (Min (time ` set (working ?q'))))] \<and>
          currentTimer ?q' = Some h')"
    by blast+
  have w': "working ?q' = [\<lparr>task_id = Num 2, time = 2000\<rparr>]"
    unfolding w by (simp add: working_def tl)
  then obtain h' where p: "pending ?q' = [(h', 11, 1989)]"
    using a by (auto simp: timerDelay_def MAX_TIMER_TIME_def)
  show ?thesis using h1 p by simp
qed

text \<open>
  The same two tasks and the same fire. When \<open>beforeRun\<close> of the first task raises,
  both tasks are left and no timeout is pending; when the store rejects the update, the
  second task is left and no timeout is pending.
\<close>

theorem fire_no_rearm_counterexample:
  "working (snd (fire 1 (raisesIn \<lparr>task_id = Num 1, time = 5\<rparr> BeforeRun) resolves 10 11
      (started resolveReminder [] 0
        [PushTask (Some \<lparr>task_id = Num 1, time = 5\<rparr>) 0,
         PushTask (Some \<lparr>task_id = Num 2, time = 2000\<rparr>) 0]))) =
     [\<lparr>task_id = Num 1, time = 5\<rparr>, \<lparr>task_id = Num 2, time = 2000\<rparr>] \<and>
   pending (snd (fire 1 (raisesIn \<lparr>task_id = Num 1, time = 5\<rparr> BeforeRun) resolves 10 11
      (started resolveReminder [] 0
        [PushTask (Some \<lparr>task_id = Num 1, time = 5\<rparr>) 0,
         PushTask (Some \<lparr>task_id = Num 2, time = 2000\<rparr>) 0]))) = [] \<and>
   fire 1 noRaise rejects 10 11
      (started resolveReminder [] 0
        [PushTask (Some \<lparr>task_id = Num 1, time = 5\<rparr>) 0,
         PushTask (Some \<lparr>task_id = Num 2, time = 2000\<rparr>) 0]) =
     (Some StorePersistenceError,
      \<lparr>tasksList = [Some \<lparr>task_id = Num 2, time = 2000\<rparr>],
        currentTimer = Some 1, currentTimerTimestamp = None, listeners = 1,
        pending = [], nextHandle = 2, updates = [[Num 1]],
        calls = [(BeforeRun, \<lparr>task_id = Num 1, time = 5\<rparr>), (Run, \<lparr>task_id = Num 1, time = 5\<rparr>),
                 (AfterRun, \<lparr>task_id = Num 1, time = 5\<rparr>)]\<rparr>)"
  by (simp add: queue_defs runLoop.simps lifecycle_def)

subsection \<open>The scan and negative times\<close>

text \<open>
  C10, as the code has it. A scan restarts from each task that follows a negative
  candidate, so its result is negative exactly when the last task of the working set has
  a negative time. A rearm by scan arms no timeout when the working set is empty or its
  last task has a negative time: the timeout of \<open>currentTimer\<close> is cancelled and
  nothing replaces it. Otherwise it arms one, for the minimum time over the tasks that
  follow the last task with a negative time; this is the minimum over the working set
  when no time is negative.
\<close>

theorem scan_rearm:
  "(working q = [] \<or> time (last (working q)) < 0 \<longrightarrow>
      pending (updateTimer None now q) =
        filter (\<lambda>e. Some (fst e) \<noteq> currentTimer q) (pending q)) \<and>
   (working q = pre @ suf \<and> suf \<noteq> [] \<and> (\<forall>t\<in>set suf. 0 \<le> time t) \<and>
    (pre = [] \<or> time (last pre) < 0) \<longrightarrow>
      pending (updateTimer None now q) =
        filter (\<lambda>e. Some (fst e) \<noteq> currentTimer q) (pending q) @
          [(nextHandle q, now, timerDelay now (Min (time ` set suf)))])"
proof (intro conjI impI)
  assume a: "working q = [] \<or> time (last (working q)) < 0"
  have "fold scanStep (working q) (- 1) < 0"
  proof (cases "working q = []")
    case True
    then show ?thesis by simp
  next
    case False
    with a show ?thesis by (simp add: fold_scanStep_sign)
  qed
  then show "pending (updateTimer None now q) =
        filter (\<lambda>e. Some (fst e) \<noteq> currentTimer q) (pending q)"
    by (simp add: pending_updateTimer nextTimerTime_scan working_def)
next
  assume a: "working q = pre @ suf \<and> suf \<noteq> [] \<and> (\<forall>t\<in>set suf. 0 \<le> time t) \<and>
    (pre = [] \<or> time (last pre) < 0)"
  have neg: "fold scanStep pre (- 1) < 0"
  proof (cases "pre = []")
    case True
    then show ?thesis by simp
  next
    case False
    with a show ?thesis by (simp add: fold_scanStep_sign)
  qed
  have "fold scanStep (working q) (- 1) = fold scanStep suf (fold scanStep pre (- 1))"
    using a by simp
  also have "\<dots> = Min (time ` set suf)"
    using neg a by (intro fold_scanStep_Min) simp_all
  finally have m: "nextTimerTime None (tasksList q) = Min (time ` set suf)"
    by (simp add: nextTimerTime_scan working_def)
  have "0 \<le> Min (time ` set suf)" using a by (simp add: Min_ge_iff)
  then show "pending (updateTimer None now q) =
        filter (\<lambda>e. Some (fst e) \<noteq> currentTimer q) (pending q) @
          [(nextHandle q, now, timerDelay now (Min (time ` set suf)))]"
    by (simp add: pending_updateTimer m)
qed

text \<open>
  With times 10 and \<open>-5\<close> the pending timeout is cancelled and none is armed; with
  times \<open>-5\<close>, 10 and 7 a timeout of 7 is armed.
\<close>

theorem scan_rearm_witness:
  "pending (updateTimer None 0
      (newQueue\<lparr>tasksList := [Some \<lparr>task_id = Num 1, time = 10\<rparr>, Some \<lparr>task_id = Num 2, time = - 5\<rparr>],
         currentTimer := Some 3, pending := [(3, 0, 10)]\<rparr>)) = [] \<and>
   pending (updateTimer None 0
      (newQueue\<lparr>tasksList := [Some \<lparr>task_id = Num 1, time = - 5\<rparr>, Some \<lparr>task_id = Num 2, time = 10\<rparr>,
          Some \<lparr>task_id = Num 3, time = 7\<rparr>]\<rparr>)) = [(0, 0, 7)]"
proof -
  let ?q1 = "newQueue\<lparr>tasksList := [Some \<lparr>task_id = Num 1, time = 10\<rparr>, Some \<lparr>task_id = Num 2, time = - 5\<rparr>],
         currentTimer := Some 3, pending := [(3, 0, 10)]\<rparr>"
  let ?q2 = "newQueue\<lparr>tasksList := [Some \<lparr>task_id = Num 1, time = - 5\<rparr>, Some \<lparr>task_id = Num 2, time = 10\<rparr>,
          Some \<lparr>task_id = Num 3, time = 7\<rparr>]\<rparr>"
  have h1: "working ?q1 = [] \<or> time (last (working ?q1)) < 0"
    by (simp add: working_def)
  have h2: "working ?q2 = [\<lparr>task_id = Num 1, time = - 5\<rparr>] @
        [\<lparr>task_id = Num 2, time = 10\<rparr>, \<lparr>task_id = Num 3, time = 7\<rparr>] \<and>
      [\<lparr>task_id = Num 2, time = 10\<rparr>, \<lparr>task_id = Num 3, time = 7\<rparr>] \<noteq> [] \<and>
      (\<forall>t\<in>set [\<lparr>task_id = Num 2, time = 10\<rparr>, \<lparr>task_id = Num 3, time = 7\<rparr>]. 0 \<le> time t) \<and>
      ([\<lparr>task_id = Num 1, time = - 5\<rparr>] = [] \<or> time (last [\<lparr>task_id = Num 1, time = - 5\<rparr>]) < 0)"
    by (simp add: working_def)
  from scan_rearm [of ?q1 0 "[]" "[]"] h1
  have a: "pending (updateTimer None 0 ?q1) =
      filter (\<lambda>e. Some (fst e) \<noteq> currentTimer ?q1) (pending ?q1)" by blast
  from scan_rearm [of ?q2 0 "[\<lparr>task_id = Num 1, time = - 5\<rparr>]"
      "[\<lparr>task_id = Num 2, time = 10\<rparr>, \<lparr>task_id = Num 3, time = 7\<rparr>]"] h2
  have b: "pending (updateTimer None 0 ?q2) =
        filter (\<lambda>e. Some (fst e) \<noteq> currentTimer ?q2) (pending ?q2) @
          [(nextHandle ?q2, 0, timerDelay 0 (Min (time ` set
             [\<lparr>task_id = Num 2, time = 10\<rparr>, \<lparr>task_id = Num 3, time = 7\<rparr>])))]" by blast
  show ?thesis
    unfolding a b by (simp add: newQueue_def timerDelay_def MAX_TIMER_TIME_def)
qed

text \<open>
  Loaded at startup with times \<open>-5\<close> and 10, the minimum is negative and a timeout
  of 10 is armed all the same.
\<close>

theorem scan_negative_counterexample:
  "Min (time ` set (working (snd (initialize resolveReminder
      [\<lparr>rec_id = 1, rec_type = ''reminder'', rec_time = - 5\<rparr>,
       \<lparr>rec_id = 2, rec_type = ''reminder'', rec_time = 10\<rparr>] 0 newQueue)))) = - 5 \<and>
   pending (snd (initialize resolveReminder
      [\<lparr>rec_id = 1, rec_type = ''reminder'', rec_time = - 5\<rparr>,
       \<lparr>rec_id = 2, rec_type = ''reminder'', rec_time = 10\<rparr>] 0 newQueue)) = [(0, 0, 10)]"
  by (simp add: queue_defs)

end
